theory Spec2Isabelle
  imports Main
begin

section \<open>Strings and characters\<close>

text \<open>
  A Python \<open>str\<close> is modelled as a \<^typ>\<open>string\<close>: a list of characters with code
  points 0 to 255.  The three character tests below tabulate, on that range, what
  CPython answers: \<open>str.isspace\<close> (which is also the class \<open>\s\<close> of \<open>re\<close> and the
  set removed by \<open>str.strip\<close>), the word characters of \<open>re\<close> (alphanumeric or
  underscore, used by \<open>\b\<close>), and the simple lower-casing that \<open>re.IGNORECASE\<close>
  compares by.
\<close>

abbreviation bs :: char where
  "bs \<equiv> CHR 0x5C"

definition isspace :: "char \<Rightarrow> bool" where
  "isspace c = (let n = (of_char c :: nat) in
     (9 \<le> n \<and> n \<le> 13) \<or> (28 \<le> n \<and> n \<le> 32) \<or> n = 133 \<or> n = 160)"

definition isword :: "char \<Rightarrow> bool" where
  "isword c = (let n = (of_char c :: nat) in
     (48 \<le> n \<and> n \<le> 57) \<or> (65 \<le> n \<and> n \<le> 90) \<or> n = 95 \<or> (97 \<le> n \<and> n \<le> 122)
     \<or> n = 170 \<or> n = 178 \<or> n = 179 \<or> n = 181 \<or> n = 185 \<or> n = 186
     \<or> (188 \<le> n \<and> n \<le> 190) \<or> (192 \<le> n \<and> n \<le> 214) \<or> (216 \<le> n \<and> n \<le> 246)
     \<or> (248 \<le> n \<and> n \<le> 255))"

definition lower :: "char \<Rightarrow> char" where
  "lower c = (let n = (of_char c :: nat) in
     if (65 \<le> n \<and> n \<le> 90) \<or> (192 \<le> n \<and> n \<le> 222 \<and> n \<noteq> 215)
     then char_of (n + 32) else c)"

text \<open>\<open>str.strip()\<close>: leading and trailing whitespace removed.\<close>

definition strip :: "string \<Rightarrow> string" where
  "strip s = rev (dropWhile isspace (rev (dropWhile isspace s)))"

text \<open>\<open>str.split()\<close>: the maximal runs of non-whitespace characters, in order.\<close>

fun split_run :: "string \<Rightarrow> string \<Rightarrow> string list" where
  "split_run cur [] = (if cur = [] then [] else [cur])"
| "split_run cur (x # xs) =
     (if isspace x then (if cur = [] then split_run [] xs else cur # split_run [] xs)
      else split_run (cur @ [x]) xs)"

definition split :: "string \<Rightarrow> string list" where
  "split s = split_run [] s"

text \<open>\<open>str.split(sep)\<close> for a one-character separator: never empty, empty pieces kept.\<close>

fun split_sep :: "char \<Rightarrow> string \<Rightarrow> string list" where
  "split_sep sep [] = [[]]"
| "split_sep sep (x # xs) =
     (case split_sep sep xs of
        [] \<Rightarrow> [[]]
      | piece # pieces \<Rightarrow> if x = sep then [] # piece # pieces else (x # piece) # pieces)"

section \<open>The regular expressions of \<open>re\<close>\<close>

text \<open>
  The fragment of Python's pattern syntax that the policy table uses: literal
  characters, \<open>.\<close>, the escapes \<open>\b\<close> and \<open>\s\<close>, escaped punctuation, groups,
  alternation, and the greedy repeats \<open>*\<close> and \<open>+\<close>.  A \<open>{\<close> that does not open a
  well-formed repeat count is a literal, as in \<open>sre_parse\<close>.
\<close>

datatype regex =
    Eps
  | Lit char
  | Dot
  | Space
  | WordB
  | Group regex
  | Star regex
  | Plus regex
  | Seq regex regex
  | Alt regex regex

subsection \<open>Parsing\<close>

text \<open>
  A frame holds the finished branches of the alternation being read (latest first)
  and the items of the branch being read (latest first).  An opening parenthesis
  pushes the current frame; a closing one pops it.
\<close>

type_synonym frame = "regex list \<times> regex list"

definition seq_of :: "regex list \<Rightarrow> regex" where
  "seq_of items = fold Seq items Eps"

definition close_frame :: "frame \<Rightarrow> regex" where
  "close_frame f = fold Alt (fst f) (seq_of (snd f))"

definition add_item :: "regex \<Rightarrow> frame \<Rightarrow> frame" where
  "add_item r f = (fst f, r # snd f)"

definition new_branch :: "frame \<Rightarrow> frame" where
  "new_branch f = (seq_of (snd f) # fst f, [])"

fun is_repeat :: "regex \<Rightarrow> bool" where
  "is_repeat (Star r) = True"
| "is_repeat (Plus r) = True"
| "is_repeat r = False"

definition isdigit :: "char \<Rightarrow> bool" where
  "isdigit c = (let n = (of_char c :: nat) in 48 \<le> n \<and> n \<le> 57)"

text \<open>Whether the text after a \<open>{\<close> completes a repeat count \<open>{m}\<close>, \<open>{m,n}\<close>, \<open>{m,}\<close>, \<open>{,n}\<close>, \<open>{,}\<close>.\<close>

definition is_count :: "string \<Rightarrow> bool" where
  "is_count s =
     (case s of
        [] \<Rightarrow> False
      | c # _ \<Rightarrow>
          if c = CHR ''}'' then False
          else (case dropWhile isdigit s of
                  [] \<Rightarrow> False
                | d # ds \<Rightarrow>
                    if d = CHR ''}'' then True
                    else if d = CHR '','' then
                      (case dropWhile isdigit ds of [] \<Rightarrow> False | e # _ \<Rightarrow> e = CHR ''}'')
                    else False))"

text \<open>
  A repeat needs an item to repeat, which is neither a repeat itself nor \<open>\b\<close>;
  the lazy and possessive suffixes are outside the fragment.
\<close>

definition repeat_item :: "(regex \<Rightarrow> regex) \<Rightarrow> string \<Rightarrow> frame \<Rightarrow> frame option" where
  "repeat_item rep rest f =
     (case snd f of
        [] \<Rightarrow> None
      | r # items \<Rightarrow>
          if is_repeat r \<or> r = WordB then None
          else if rest \<noteq> [] \<and> (hd rest = CHR ''?'' \<or> hd rest = CHR ''+'') then None
          else Some (fst f, rep r # items))"

definition escape :: "char \<Rightarrow> regex option" where
  "escape c =
     (if c = CHR ''b'' then Some WordB
      else if c = CHR ''s'' then Some Space
      else if (of_char c :: nat) < 128 \<and> \<not> isword c then Some (Lit c)
      else None)"

fun parse :: "string \<Rightarrow> frame \<Rightarrow> frame list \<Rightarrow> regex option" where
  "parse [] cur stack = (if stack = [] then Some (close_frame cur) else None)"
| "parse (c # cs) cur stack =
     (if c = CHR ''('' then
        (if cs \<noteq> [] \<and> hd cs = CHR ''?'' then None else parse cs ([], []) (cur # stack))
      else if c = CHR '')'' then
        (case stack of
           [] \<Rightarrow> None
         | f # fs \<Rightarrow> parse cs (add_item (Group (close_frame cur)) f) fs)
      else if c = CHR ''|'' then parse cs (new_branch cur) stack
      else if c = CHR ''*'' then
        (case repeat_item Star cs cur of None \<Rightarrow> None | Some f \<Rightarrow> parse cs f stack)
      else if c = CHR ''+'' then
        (case repeat_item Plus cs cur of None \<Rightarrow> None | Some f \<Rightarrow> parse cs f stack)
      else if c = CHR ''{'' then
        (if is_count cs then None else parse cs (add_item (Lit c) cur) stack)
      else if c = CHR ''.'' then parse cs (add_item Dot cur) stack
      else if c = bs then
        (case cs of
           [] \<Rightarrow> None
         | e # es \<Rightarrow> (case escape e of None \<Rightarrow> None | Some r \<Rightarrow> parse es (add_item r cur) stack))
      else if c = CHR ''?'' \<or> c = CHR ''['' \<or> c = CHR ''^'' \<or> c = CHR ''$'' then None
      else parse cs (add_item (Lit c) cur) stack)"

text \<open>\<open>re.compile\<close>; \<open>None\<close> stands for \<open>re.error\<close> or a pattern outside the fragment.\<close>

definition re_compile :: "string \<Rightarrow> regex option" where
  "re_compile pattern = parse pattern ([], []) []"

subsection \<open>Matching\<close>

text \<open>
  A position in the subject string is the text from it on, together with whether
  the character just before it is a word character (all that \<open>\b\<close> needs of the
  text already passed; at the start of the string there is none).
  \<open>match r p\<close> lists the positions at which a match of \<open>r\<close> begun at \<open>p\<close> can
  end.  Literals compare case-insensitively (\<open>re.IGNORECASE\<close>); \<open>.\<close> is any
  character but the newline.
\<close>

type_synonym pos = "bool \<times> string"

definition at_boundary :: "pos \<Rightarrow> bool" where
  "at_boundary p = (fst p \<noteq> (case snd p of [] \<Rightarrow> False | b # _ \<Rightarrow> isword b))"

definition take_char :: "(char \<Rightarrow> bool) \<Rightarrow> pos \<Rightarrow> pos list" where
  "take_char ok p = (case snd p of [] \<Rightarrow> [] | x # xs \<Rightarrow> if ok x then [(isword x, xs)] else [])"

text \<open>
  Zero or more rounds of \<open>step\<close>.  Only rounds that consume text are followed: a
  round that consumes nothing ends where it began.
\<close>

fun repeat :: "(pos \<Rightarrow> pos list) \<Rightarrow> pos \<Rightarrow> pos list" where
  "repeat step p =
     p # concat (map (repeat step) (filter (\<lambda>q. length (snd q) < length (snd p)) (step p)))"

declare repeat.simps [simp del]

primrec match :: "regex \<Rightarrow> pos \<Rightarrow> pos list" where
  "match Eps = (\<lambda>p. [p])"
| "match (Lit c) = take_char (\<lambda>x. lower x = lower c)"
| "match Dot = take_char (\<lambda>x. x \<noteq> CHR 0x0A)"
| "match Space = take_char isspace"
| "match WordB = (\<lambda>p. if at_boundary p then [p] else [])"
| "match (Group r) = match r"
| "match (Star r) = repeat (match r)"
| "match (Plus r) = (\<lambda>p. concat (map (repeat (match r)) (match r p)))"
| "match (Seq r1 r2) = (\<lambda>p. concat (map (match r2) (match r1 p)))"
| "match (Alt r1 r2) = (\<lambda>p. match r1 p @ match r2 p)"

text \<open>\<open>search\<close>: a match may begin at any position, the end of the string included.\<close>

fun search_from :: "regex \<Rightarrow> bool \<Rightarrow> string \<Rightarrow> bool" where
  "search_from r w [] = (match r (w, []) \<noteq> [])"
| "search_from r w (x # xs) =
     (if match r (w, x # xs) \<noteq> [] then True else search_from r (isword x) xs)"

text \<open>\<open>re.search(pattern, string, re.IGNORECASE)\<close>, as a truth value.\<close>

definition re_search :: "string \<Rightarrow> string \<Rightarrow> bool option" where
  "re_search pattern s = map_option (\<lambda>r. search_from r False s) (re_compile pattern)"

section \<open>The policy table\<close>

text \<open>
  \<open>POLICY_RULES\<close>, in declaration order (a Python \<open>dict\<close> iterates in insertion
  order).  \<^term>\<open>bs\<close> is the backslash of the raw string literals of the source.
\<close>

record policy_rule =
  patterns :: "string list"
  message :: string

definition POLICY_RULES :: "(string \<times> policy_rule) list" where
  "POLICY_RULES =
     [(''destructive_commands'',
       \<lparr>patterns =
          [bs # ''brm'' @ bs # ''s+-rf'' @ bs # ''s+/'',
           bs # ''brm'' @ bs # ''s+-rf'' @ bs # ''s+'' @ bs # ''*'',
           bs # ''bdd'' @ bs # ''s+.*of=/dev/'',
           bs # ''bmkfs'' @ bs # ''.'',
           bs # ''b:(){:|:&};:'',
           bs # ''bchmod'' @ bs # ''s+-R'' @ bs # ''s+777''],
        message = ''Destructive command blocked by ORG-SEC-001''\<rparr>),
      (''network_exfiltration'',
       \<lparr>patterns =
          [''curl'' @ bs # ''s+.*'' @ bs # ''|'' @ bs # ''s*bash'',
           ''wget'' @ bs # ''s+.*'' @ bs # ''|'' @ bs # ''s*sh'',
           ''nc'' @ bs # ''s+-l'',
           ''python.*-m'' @ bs # ''s+http'' @ bs # ''.server''],
        message = ''Network exfiltration risk blocked by ORG-SEC-002''\<rparr>),
      (''system_modification'',
       \<lparr>patterns =
          [bs # ''bsudo'' @ bs # ''s+rm'',
           bs # ''bapt-get'' @ bs # ''s+remove'',
           bs # ''byum'' @ bs # ''s+remove'',
           bs # ''bsystemctl'' @ bs # ''s+stop'',
           bs # ''bkill'' @ bs # ''s+-9'' @ bs # ''s+1''],
        message = ''System modification requires approval - ORG-OPS-003''\<rparr>),
      (''sensitive_paths'',
       \<lparr>patterns =
          [''/etc/passwd'',
           ''/etc/shadow'',
           bs # ''.ssh/id_rsa'',
           bs # ''.aws/credentials'',
           bs # ''.env''],
        message = ''Access to sensitive files blocked - ORG-SEC-004''\<rparr>)]"

text \<open>\<open>ALLOWED_COMMANDS\<close>, the allowlist of command names.\<close>

definition ALLOWED_COMMANDS :: "string set" where
  "ALLOWED_COMMANDS =
     {''git'', ''ls'', ''cat'', ''echo'', ''pwd'', ''cd'', ''grep'',
      ''find'', ''npm'', ''yarn'', ''python'', ''node'', ''pip'',
      ''docker'', ''kubectl'', ''terraform'', ''make'', ''cargo''}"

section \<open>Python values and exceptions\<close>

text \<open>
  The dictionaries that the validator builds and returns are association lists in
  insertion order, over a small universe of Python values.
\<close>

datatype pyval =
    PNone
  | PBool bool
  | PInt int
  | PStr string
  | PList "pyval list"
  | PDict "(string \<times> pyval) list"

type_synonym pydict = "(string \<times> pyval) list"

datatype error =
    ReError string
  | AttributeError
  | KeyError string
  | ValueError string

text \<open>\<open>d.get(key, default)\<close> and \<open>d[key]\<close>.\<close>

definition dict_get :: "pydict \<Rightarrow> string \<Rightarrow> pyval \<Rightarrow> pyval" where
  "dict_get d key dflt = (case map_of d key of None \<Rightarrow> dflt | Some v \<Rightarrow> v)"

definition dict_item :: "pydict \<Rightarrow> string \<Rightarrow> error + pyval" where
  "dict_item d key = (case map_of d key of None \<Rightarrow> Inl (KeyError key) | Some v \<Rightarrow> Inr v)"

text \<open>The truth value of an object, as \<open>not\<close> takes it.\<close>

fun truthy :: "pyval \<Rightarrow> bool" where
  "truthy PNone = False"
| "truthy (PBool b) = b"
| "truthy (PInt i) = (i \<noteq> 0)"
| "truthy (PStr s) = (s \<noteq> [])"
| "truthy (PList vs) = (vs \<noteq> [])"
| "truthy (PDict d) = (d \<noteq> [])"

text \<open>\<open>xs[-n:]\<close>: the last \<open>n\<close> elements, or all of them when there are fewer.\<close>

definition last_n :: "nat \<Rightarrow> 'a list \<Rightarrow> 'a list" where
  "last_n n xs = drop (length xs - n) xs"

section \<open>\<open>CommandValidator\<close>\<close>

record validator =
  violation_count :: int
  audit_log :: "pydict list"

text \<open>\<open>__init__\<close>.\<close>

definition init :: validator where
  "init = \<lparr>violation_count = 0, audit_log = []\<rparr>"

text \<open>
  The inner loop of \<open>validate_command\<close>: the first pattern of the list that
  \<open>re.search\<close> finds in the command; an exception of \<open>re\<close> leaves the loop.
\<close>

fun first_pattern :: "string list \<Rightarrow> string \<Rightarrow> error + string option" where
  "first_pattern [] command = Inr None"
| "first_pattern (pattern # rest) command =
     (case re_search pattern command of
        None \<Rightarrow> Inl (ReError pattern)
      | Some True \<Rightarrow> Inr (Some pattern)
      | Some False \<Rightarrow> first_pattern rest command)"

text \<open>The outer loop: the first policy, in table order, one of whose patterns is found.\<close>

fun first_policy ::
  "(string \<times> policy_rule) list \<Rightarrow> string \<Rightarrow> error + (string \<times> policy_rule \<times> string) option"
where
  "first_policy [] command = Inr None"
| "first_policy ((policy_name, policy) # rest) command =
     (case first_pattern (patterns policy) command of
        Inl e \<Rightarrow> Inl e
      | Inr (Some pattern) \<Rightarrow> Inr (Some (policy_name, policy, pattern))
      | Inr None \<Rightarrow> first_policy rest command)"

text \<open>
  \<open>command.split()[0] if command.split() else ""\<close> and
  \<open>first_word.split("/")[-1]\<close>.
\<close>

definition first_word_of :: "string \<Rightarrow> string" where
  "first_word_of command = (case split command of [] \<Rightarrow> [] | w # _ \<Rightarrow> w)"

definition base_command_of :: "string \<Rightarrow> string" where
  "base_command_of first_word = last (split_sep CHR ''/'' first_word)"

text \<open>
  \<open>validate_command\<close>.  The validator object is passed in and returned; an
  exception leaves it as it was.  \<open>first_word\<close> and \<open>base_command\<close> are computed as
  in the source, which does not use them afterwards.
\<close>

definition validate_command :: "string \<Rightarrow> validator \<Rightarrow> (error + pydict) \<times> validator" where
  "validate_command raw self =
     (let command = strip raw;
          first_word = first_word_of command;
          base_command = base_command_of first_word
      in case first_policy POLICY_RULES command of
           Inl e \<Rightarrow> (Inl e, self)
         | Inr (Some (policy_name, policy, pattern)) \<Rightarrow>
             (Inr [(''allowed'', PBool False),
                   (''reason'', PStr (message policy)),
                   (''policy'', PStr policy_name),
                   (''pattern_matched'', PStr pattern)],
              self\<lparr>violation_count := violation_count self + 1,
                   audit_log := audit_log self @
                     [[(''command'', PStr command),
                       (''policy'', PStr policy_name),
                       (''status'', PStr ''BLOCKED'')]]\<rparr>)
         | Inr None \<Rightarrow>
             (Inr [(''allowed'', PBool True),
                   (''reason'', PStr ''Command passed all policy checks''),
                   (''policy'', PNone)],
              self\<lparr>audit_log := audit_log self @
                     [[(''command'', PStr command),
                       (''status'', PStr ''ALLOWED'')]]\<rparr>))"

text \<open>\<open>get_stats\<close>.\<close>

definition get_stats :: "validator \<Rightarrow> pydict \<times> validator" where
  "get_stats self =
     ([(''total_commands'', PInt (int (length (audit_log self)))),
       (''blocked'', PInt (violation_count self)),
       (''allowed'', PInt (int (length (audit_log self)) - violation_count self)),
       (''recent_log'', PList (map PDict (last_n 10 (audit_log self))))],
      self)"

section \<open>The tool-call facade\<close>

text \<open>
  \<open>call_tool\<close> answers with one \<open>TextContent\<close> whose text is
  \<open>json.dumps(value, indent=2)\<close>.  The model keeps the value that is serialised;
  the rendering as JSON text is not modelled.
\<close>

datatype text_content = TextContent string pyval

text \<open>\<open>arguments.get("command", "")\<close> followed by the call of \<open>validate_command\<close>,
  whose \<open>command.strip()\<close> needs a string.\<close>

definition validate_argument ::
  "pydict \<Rightarrow> validator \<Rightarrow> (error + (pyval \<times> pydict)) \<times> validator"
where
  "validate_argument arguments v =
     (case dict_get arguments ''command'' (PStr []) of
        PStr command \<Rightarrow>
          (case validate_command command v of
             (Inl e, v') \<Rightarrow> (Inl e, v')
           | (Inr result, v') \<Rightarrow> (Inr (PStr command, result), v'))
      | _ \<Rightarrow> (Inl AttributeError, v))"

definition call_tool ::
  "string \<Rightarrow> pydict \<Rightarrow> validator \<Rightarrow> (error + text_content list) \<times> validator"
where
  "call_tool name arguments v =
     (if name = ''validate_command'' then
        (case validate_argument arguments v of
           (Inl e, v') \<Rightarrow> (Inl e, v')
         | (Inr (command, result), v') \<Rightarrow> (Inr [TextContent ''text'' (PDict result)], v'))
      else if name = ''execute_validated_command'' then
        (case validate_argument arguments v of
           (Inl e, v') \<Rightarrow> (Inl e, v')
         | (Inr (command, validation), v') \<Rightarrow>
             (case dict_item validation ''allowed'' of
                Inl e \<Rightarrow> (Inl e, v')
              | Inr allowed \<Rightarrow>
                  if \<not> truthy allowed then
                    (case dict_item validation ''reason'' of
                       Inl e \<Rightarrow> (Inl e, v')
                     | Inr reason \<Rightarrow>
                         (case dict_item validation ''policy'' of
                            Inl e \<Rightarrow> (Inl e, v')
                          | Inr policy \<Rightarrow>
                              (Inr [TextContent ''text''
                                     (PDict [(''status'', PStr ''blocked''),
                                             (''command'', command),
                                             (''reason'', reason),
                                             (''policy'', policy)])], v')))
                  else
                    (Inr [TextContent ''text''
                           (PDict [(''status'', PStr ''success''),
                                   (''command'', command),
                                   (''validation'', PStr ''passed''),
                                   (''output'',
                                    PStr (''[SIMULATED] Command '' @ [CHR 0x27] @
                                          (case command of PStr c \<Rightarrow> c | _ \<Rightarrow> []) @
                                          [CHR 0x27] @ '' would be executed here''))])], v')))
      else if name = ''get_validation_stats'' then
        (case get_stats v of (stats, v') \<Rightarrow> (Inr [TextContent ''text'' (PDict stats)], v'))
      else if name = ''list_policies'' then
        (Inr [TextContent ''text''
               (PDict (map (\<lambda>(policy_name, policy).
                              (policy_name,
                               PDict [(''message'', PStr (message policy)),
                                      (''pattern_count'', PInt (int (length (patterns policy))))]))
                           POLICY_RULES))], v)
      else (Inl (ValueError (''Unknown tool: '' @ name)), v))"

section \<open>Notions used to state the properties\<close>

text \<open>A pattern fires on a text when \<open>re.search\<close> finds it there.\<close>

definition fires :: "string \<Rightarrow> string \<Rightarrow> bool" where
  "fires pattern command = (re_search pattern command = Some True)"

text \<open>The patterns of the \<open>i\<close>-th policy of the table, and its \<open>j\<close>-th pattern.\<close>

definition policy_patterns :: "nat \<Rightarrow> string list" where
  "policy_patterns i = patterns (snd (POLICY_RULES ! i))"

definition pattern_at :: "nat \<Rightarrow> nat \<Rightarrow> string" where
  "pattern_at i j = policy_patterns i ! j"

text \<open>Some pattern of some policy fires on the text.\<close>

definition violates :: "string \<Rightarrow> bool" where
  "violates command =
     (\<exists>i < length POLICY_RULES. \<exists>j < length (policy_patterns i). fires (pattern_at i j) command)"

text \<open>The entries of a log with a given status.\<close>

definition has_status :: "string \<Rightarrow> pydict \<Rightarrow> bool" where
  "has_status st entry = (map_of entry ''status'' = Some (PStr st))"

definition count_status :: "string \<Rightarrow> pydict list \<Rightarrow> nat" where
  "count_status st log = length (filter (has_status st) log)"

text \<open>The two audit entries that \<open>validate_command\<close> writes.\<close>

definition blocked_entry :: "string \<Rightarrow> string \<Rightarrow> pydict" where
  "blocked_entry command policy_name =
     [(''command'', PStr command), (''policy'', PStr policy_name), (''status'', PStr ''BLOCKED'')]"

definition allowed_entry :: "string \<Rightarrow> pydict" where
  "allowed_entry command = [(''command'', PStr command), (''status'', PStr ''ALLOWED'')]"

text \<open>Sequences of operations on the validator, run from a given state.\<close>

datatype operation = Validate string | GetStats

fun run_op :: "operation \<Rightarrow> validator \<Rightarrow> validator" where
  "run_op (Validate command) v = snd (validate_command command v)"
| "run_op GetStats v = snd (get_stats v)"

definition run_ops :: "operation list \<Rightarrow> validator \<Rightarrow> validator" where
  "run_ops ops v = fold run_op ops v"

text \<open>The invariant of the data model.\<close>

definition invariant :: "validator \<Rightarrow> bool" where
  "invariant v =
     (violation_count v = int (count_status ''BLOCKED'' (audit_log v)) \<and>
      dict_get (fst (get_stats v)) ''total_commands'' PNone = PInt (int (length (audit_log v))))"

text \<open>The two dictionaries that \<open>validate_command\<close> returns.\<close>

definition blocked_result :: "string \<Rightarrow> string \<Rightarrow> string \<Rightarrow> pydict" where
  "blocked_result msg policy_name pattern =
     [(''allowed'', PBool False), (''reason'', PStr msg), (''policy'', PStr policy_name),
      (''pattern_matched'', PStr pattern)]"

definition allowed_result :: pydict where
  "allowed_result =
     [(''allowed'', PBool True), (''reason'', PStr ''Command passed all policy checks''),
      (''policy'', PNone)]"

section \<open>Notions used in the proofs\<close>

definition all_patterns :: "string list" where
  "all_patterns = concat (map (\<lambda>r. patterns (snd r)) POLICY_RULES)"

definition policy_fires :: "string \<Rightarrow> string \<times> policy_rule \<Rightarrow> bool" where
  "policy_fires c r = (\<exists>p \<in> set (patterns (snd r)). fires p c)"

text \<open>The position \<open>p\<close> in a text that has one more character \<open>w\<close> at its end.\<close>

definition ext :: "char \<Rightarrow> pos \<Rightarrow> pos" where
  "ext w p = (fst p, snd p @ [w])"

text \<open>A matching step never ends before it began.\<close>

definition shrinks :: "(pos \<Rightarrow> pos list) \<Rightarrow> bool" where
  "shrinks f = (\<forall>p. \<forall>x \<in> set (f p). length (snd x) \<le> length (snd p))"

text \<open>
  Adding \<open>w\<close> at the end of the text changes nothing for the matches that end
  before it.
\<close>

definition extends :: "char \<Rightarrow> (pos \<Rightarrow> pos list) \<Rightarrow> bool" where
  "extends w f = (\<forall>p. {x \<in> set (f (ext w p)). snd x \<noteq> []} = ext w ` set (f p))"

text \<open>No match ends at the end of a text that is empty or ends with \<open>w\<close>.\<close>

definition never_at_end :: "char \<Rightarrow> (pos \<Rightarrow> pos list) \<Rightarrow> bool" where
  "never_at_end w f = ((\<forall>b. f (b, []) = []) \<and> (\<forall>p. \<forall>x \<in> set (f (ext w p)). snd x \<noteq> []))"

text \<open>No match begins at a whitespace character.\<close>

definition never_at_space :: "(pos \<Rightarrow> pos list) \<Rightarrow> bool" where
  "never_at_space f = (\<forall>b w s. isspace w \<longrightarrow> f (b, w # s) = [])"

text \<open>
  Syntactic criteria: every match begins, respectively ends, with a literal
  character that is not whitespace.
\<close>

fun starts_lit :: "regex \<Rightarrow> bool" where
  "starts_lit (Lit c) = (\<not> isspace (lower c))"
| "starts_lit (Group r) = starts_lit r"
| "starts_lit (Seq r1 r2) = (if r1 = WordB then starts_lit r2 else starts_lit r1)"
| "starts_lit (Alt r1 r2) = (starts_lit r1 \<and> starts_lit r2)"
| "starts_lit r = False"

fun ends_lit :: "regex \<Rightarrow> bool" where
  "ends_lit (Lit c) = (\<not> isspace (lower c))"
| "ends_lit (Group r) = ends_lit r"
| "ends_lit (Seq r1 r2) = (if r2 = Eps then ends_lit r1 else ends_lit r2)"
| "ends_lit (Alt r1 r2) = (ends_lit r1 \<and> ends_lit r2)"
| "ends_lit r = False"

definition anchored :: "string \<Rightarrow> bool" where
  "anchored pattern =
     (case re_compile pattern of None \<Rightarrow> False | Some r \<Rightarrow> starts_lit r \<and> ends_lit r)"

section \<open>The matcher and whitespace at the ends of the text\<close>

lemma set_repeat:
  "set (repeat f p) = insert p (\<Union>q \<in> {q \<in> set (f p). length (snd q) < length (snd p)}. set (repeat f q))"
  by (subst repeat.simps) auto

lemma repeat_self: "p \<in> set (repeat f p)"
  by (subst set_repeat) simp

lemma repeat_step:
  assumes "q \<in> set (f p)" "length (snd q) < length (snd p)" "y \<in> set (repeat f q)"
  shows "y \<in> set (repeat f p)"
  using assms by (subst set_repeat) blast

lemma shrinks_repeat:
  assumes "shrinks f"
  shows "shrinks (repeat f)"
proof -
  have "x \<in> set (repeat f p) \<Longrightarrow> length (snd x) \<le> length (snd p)" for x p
  proof (induction f p arbitrary: x rule: repeat.induct)
    case (1 step p)
    from "1.prems" consider "x = p"
      | q where "q \<in> set (step p)" "length (snd q) < length (snd p)" "x \<in> set (repeat step q)"
      by (subst (asm) set_repeat) auto
    then show ?case
    proof cases
      case 1
      then show ?thesis by simp
    next
      case 2
      with "1.IH" [of q x] show ?thesis by simp
    qed
  qed
  then show ?thesis by (simp add: shrinks_def)
qed

lemma shrinks_take_char: "shrinks (take_char ok)"
  by (auto simp: shrinks_def take_char_def split: list.splits if_splits)

lemma shrinks_bind:
  assumes "shrinks f" "shrinks g"
  shows "shrinks (\<lambda>p. concat (map g (f p)))"
  using assms unfolding shrinks_def by (fastforce)

lemma shrinks_match: "shrinks (match r)"
proof (induction r)
  case (Star r)
  then show ?case by (simp add: shrinks_repeat)
next
  case (Plus r)
  then show ?case by (simp add: shrinks_bind shrinks_repeat)
next
  case (Seq r1 r2)
  then show ?case by (simp add: shrinks_bind)
next
  case (Alt r1 r2)
  then show ?case unfolding shrinks_def by fastforce
qed (simp_all add: shrinks_take_char, simp_all add: shrinks_def)

lemma match_at_end:
  assumes "x \<in> set (match r (b, []))"
  shows "snd x = []"
  using assms shrinks_match [of r] unfolding shrinks_def by fastforce

lemma ext_simps [simp]: "snd (ext w p) \<noteq> []" "fst (ext w p) = fst p" "snd (ext w p) = snd p @ [w]"
  "length (snd (ext w p)) = Suc (length (snd p))"
  by (simp_all add: ext_def)

lemma ext_inject [simp]: "ext w p = ext w q \<longleftrightarrow> p = q"
  by (auto simp: ext_def prod_eq_iff)

lemma extends_D1:
  assumes "extends w f" "x \<in> set (f (ext w p))" "snd x \<noteq> []"
  obtains y where "y \<in> set (f p)" "x = ext w y"
  using assms unfolding extends_def by blast

lemma extends_D2:
  assumes "extends w f" "y \<in> set (f p)"
  shows "ext w y \<in> set (f (ext w p))"
  using assms unfolding extends_def by blast

lemma extends_I:
  assumes "\<And>p x. x \<in> set (f (ext w p)) \<Longrightarrow> snd x \<noteq> [] \<Longrightarrow> \<exists>y \<in> set (f p). x = ext w y"
    and "\<And>p y. y \<in> set (f p) \<Longrightarrow> ext w y \<in> set (f (ext w p))"
  shows "extends w f"
  unfolding extends_def using assms by (auto simp: image_iff)

lemma shrinks_D: "shrinks f \<Longrightarrow> x \<in> set (f p) \<Longrightarrow> length (snd x) \<le> length (snd p)"
  unfolding shrinks_def by blast

lemma repeat_at_end: "snd p = [] \<Longrightarrow> repeat f p = [p]"
  by (subst repeat.simps) simp

lemma extends_bind:
  assumes f: "extends w f" and g: "extends w g" and sg: "shrinks g"
  shows "extends w (\<lambda>p. concat (map g (f p)))"
proof (rule extends_I)
  fix p x
  assume "x \<in> set (concat (map g (f (ext w p))))" and nx: "snd x \<noteq> []"
  then obtain q where q: "q \<in> set (f (ext w p))" and x: "x \<in> set (g q)" by auto
  from shrinks_D [OF sg x] nx have "snd q \<noteq> []" by auto
  with f q obtain q' where q': "q' \<in> set (f p)" "q = ext w q'" by (rule extends_D1)
  with g x nx obtain y where "y \<in> set (g q')" "x = ext w y" by (auto elim: extends_D1)
  with q' show "\<exists>y \<in> set (concat (map g (f p))). x = ext w y" by auto
next
  fix p y
  assume "y \<in> set (concat (map g (f p)))"
  then obtain q where "q \<in> set (f p)" "y \<in> set (g q)" by auto
  then have "ext w q \<in> set (f (ext w p))" "ext w y \<in> set (g (ext w q))"
    using f g by (auto intro: extends_D2)
  then show "ext w y \<in> set (concat (map g (f (ext w p))))" by auto
qed

lemma extends_repeat:
  assumes f: "extends w f"
  shows "extends w (repeat f)"
proof (rule extends_I)
  show "x \<in> set (repeat f (ext w p)) \<Longrightarrow> snd x \<noteq> [] \<Longrightarrow> \<exists>y \<in> set (repeat f p). x = ext w y" for p x
    using f
  proof (induction f p arbitrary: x rule: repeat.induct)
    case (1 step p)
    from "1.prems"(1) consider "x = ext w p"
      | q where "q \<in> set (step (ext w p))" "length (snd q) < length (snd (ext w p))"
          "x \<in> set (repeat step q)"
      by (subst (asm) set_repeat) auto
    then show ?case
    proof cases
      case 1
      then show ?thesis using repeat_self by blast
    next
      case 2
      from 2(3) "1.prems"(2) have "snd q \<noteq> []"
        by (auto simp: repeat_at_end)
      with "1.prems"(3) 2(1) obtain q' where q': "q' \<in> set (step p)" "q = ext w q'"
        by (rule extends_D1)
      with 2(2) have less: "length (snd q') < length (snd p)" by simp
      with q' have "q' \<in> set (filter (\<lambda>q. length (snd q) < length (snd p)) (step p))" by simp
      from "1.IH" [OF this _ "1.prems"(2,3)] 2(3) q'
      obtain y where "y \<in> set (repeat step q')" "x = ext w y" by auto
      with q' less show ?thesis using repeat_step by blast
    qed
  qed
  show "y \<in> set (repeat f p) \<Longrightarrow> ext w y \<in> set (repeat f (ext w p))" for p y
    using f
  proof (induction f p arbitrary: y rule: repeat.induct)
    case (1 step p)
    from "1.prems"(1) consider "y = p"
      | q where "q \<in> set (step p)" "length (snd q) < length (snd p)" "y \<in> set (repeat step q)"
      by (subst (asm) set_repeat) auto
    then show ?case
    proof cases
      case 1
      then show ?thesis using repeat_self by blast
    next
      case 2
      then have "q \<in> set (filter (\<lambda>q. length (snd q) < length (snd p)) (step p))" by simp
      from "1.IH" [OF this 2(3) "1.prems"(2)]
      have "ext w y \<in> set (repeat step (ext w q))" .
      moreover from "1.prems"(2) 2(1) have "ext w q \<in> set (step (ext w p))"
        by (rule extends_D2)
      ultimately show ?thesis using 2(2) by (auto intro: repeat_step)
    qed
  qed
qed

lemma extends_take_char:
  assumes "\<not> isword w"
  shows "extends w (take_char ok)"
proof (rule extends_I)
  fix p x
  assume "x \<in> set (take_char ok (ext w p))" "snd x \<noteq> []"
  then show "\<exists>y \<in> set (take_char ok p). x = ext w y"
    by (cases "snd p") (auto simp: take_char_def ext_def split: if_splits)
next
  fix p y
  assume "y \<in> set (take_char ok p)"
  then show "ext w y \<in> set (take_char ok (ext w p))"
    by (cases "snd p") (auto simp: take_char_def ext_def split: if_splits)
qed

lemma at_boundary_ext: "\<not> isword w \<Longrightarrow> at_boundary (ext w p) = at_boundary p"
  by (cases p) (auto simp: at_boundary_def ext_def split: list.splits)

lemma extends_match:
  assumes w: "\<not> isword w"
  shows "extends w (match r)"
proof (induction r)
  case Eps
  show ?case by (auto simp: extends_def)
next
  case WordB
  show ?case using w by (auto simp: extends_def at_boundary_ext)
next
  case (Star r)
  then show ?case by (simp add: extends_repeat)
next
  case (Plus r)
  then show ?case by (simp add: extends_bind extends_repeat shrinks_repeat shrinks_match)
next
  case (Seq r1 r2)
  then show ?case by (simp add: extends_bind shrinks_match)
next
  case (Alt r1 r2)
  show ?case
  proof (rule extends_I)
    fix p x
    assume "x \<in> set (match (Alt r1 r2) (ext w p))" "snd x \<noteq> []"
    then show "\<exists>y \<in> set (match (Alt r1 r2) p). x = ext w y"
      using Alt by (auto elim: extends_D1)
  next
    fix p y
    assume "y \<in> set (match (Alt r1 r2) p)"
    then show "ext w y \<in> set (match (Alt r1 r2) (ext w p))"
      using Alt by (auto intro: extends_D2)
  qed
qed (simp_all add: extends_take_char w)


lemma space_not_word: "isspace w \<Longrightarrow> \<not> isword w"
  unfolding isspace_def isword_def Let_def by arith

lemma lower_space: "isspace w \<Longrightarrow> lower w = w"
  unfolding isspace_def lower_def Let_def by auto

lemma lit_not_space:
  assumes "\<not> isspace (lower c)" "isspace w"
  shows "lower w \<noteq> lower c"
  using assms by (auto simp: lower_space)

lemma never_at_space_match:
  assumes "starts_lit r"
  shows "never_at_space (match r)"
  using assms
proof (induction r rule: starts_lit.induct)
  case (1 c)
  then show ?case by (auto simp: never_at_space_def take_char_def lit_not_space)
next
  case (3 r1 r2)
  then show ?case by (auto simp: never_at_space_def split: if_splits)
qed (auto simp: never_at_space_def)

lemma match_Seq_Eps: "match (Seq r Eps) p = match r p"
  by (induction "match r p" arbitrary: p) simp_all

lemma never_at_end_D:
  assumes "never_at_end w f" "x \<in> set (f (ext w p))"
  shows "snd x \<noteq> []"
  using assms unfolding never_at_end_def by blast

lemma never_at_end_match:
  assumes "ends_lit r" "isspace w"
  shows "never_at_end w (match r)"
  using assms
proof (induction r rule: ends_lit.induct)
  case (1 c)
  have "snd x \<noteq> []" if "x \<in> set (take_char (\<lambda>x. lower x = lower c) (ext w p))" for x p
    using that 1 by (cases "snd p") (auto simp: take_char_def ext_def lit_not_space split: if_splits)
  then show ?case by (auto simp: never_at_end_def take_char_def)
next
  case (2 r)
  then show ?case by simp
next
  case (3 r1 r2)
  show ?case
  proof (cases "r2 = Eps")
    case True
    with 3 have "never_at_end w (match r1)" by simp
    then show ?thesis unfolding never_at_end_def True match_Seq_Eps .
  next
    case False
    with 3 have r2: "never_at_end w (match r2)" by simp
    have "match (Seq r1 r2) (b, []) = []" for b
    proof -
      have "match r2 q = []" if "q \<in> set (match r1 (b, []))" for q
        using match_at_end [OF that] r2 by (cases q) (simp add: never_at_end_def)
      then show ?thesis by simp
    qed
    moreover have "snd x \<noteq> []" if x: "x \<in> set (match (Seq r1 r2) (ext w p))" for x p
    proof -
      from x obtain q where q: "q \<in> set (match r1 (ext w p))" "x \<in> set (match r2 q)" by auto
      show ?thesis
      proof (cases "snd q = []")
        case True
        with r2 q(2) show ?thesis by (cases q) (simp add: never_at_end_def)
      next
        case False
        from extends_match [OF space_not_word [OF \<open>isspace w\<close>]] q(1) False
        obtain q' where "q = ext w q'" by (rule extends_D1)
        with r2 q(2) show ?thesis by (auto dest: never_at_end_D)
      qed
    qed
    ultimately show ?thesis unfolding never_at_end_def by blast
  qed
next
  case (4 r1 r2)
  then have "never_at_end w (match r1)" "never_at_end w (match r2)" by simp_all
  then show ?case unfolding never_at_end_def by fastforce
qed simp_all

lemma search_from_space:
  assumes "never_at_space (match r)" "isspace w"
  shows "search_from r b (w # s) = search_from r False s"
  using assms by (simp add: never_at_space_def space_not_word)

lemma search_from_leading:
  assumes "never_at_space (match r)" "\<forall>w \<in> set ws. isspace w"
  shows "search_from r False (ws @ s) = search_from r False s"
  using assms by (induction ws) (simp_all add: search_from_space del: search_from.simps)

lemma match_ext_empty:
  assumes e: "never_at_end w (match r)" and w: "\<not> isword w"
  shows "match r (b, s @ [w]) = [] \<longleftrightarrow> match r (b, s) = []"
proof
  assume l: "match r (b, s @ [w]) = []"
  show "match r (b, s) = []"
  proof (rule ccontr)
    assume "match r (b, s) \<noteq> []"
    then obtain y where "y \<in> set (match r (b, s))" by (cases "match r (b, s)") auto
    from extends_D2 [OF extends_match [OF w] this] l show False by (simp add: ext_def)
  qed
next
  assume r: "match r (b, s) = []"
  show "match r (b, s @ [w]) = []"
  proof (rule ccontr)
    assume "match r (b, s @ [w]) \<noteq> []"
    then obtain x where x: "x \<in> set (match r (ext w (b, s)))"
      by (cases "match r (b, s @ [w])") (auto simp: ext_def)
    with e have "snd x \<noteq> []" by (rule never_at_end_D)
    from extends_D1 [OF extends_match [OF w] x this] r show False by auto
  qed
qed

lemma search_from_snoc:
  assumes e: "never_at_end w (match r)" and w: "\<not> isword w"
  shows "search_from r b (s @ [w]) = search_from r b s"
proof (induction s arbitrary: b)
  case Nil
  from e have "match r (False, []) = []" by (simp add: never_at_end_def)
  with match_ext_empty [OF e w, of b "[]"] w show ?case by simp
next
  case (Cons x s)
  with match_ext_empty [OF e w, of b "x # s"] show ?case by simp
qed

lemma search_from_trailing:
  assumes "ends_lit r" "\<forall>w \<in> set ws. isspace w"
  shows "search_from r b (s @ ws) = search_from r b s"
  using assms(2)
proof (induction ws rule: rev_induct)
  case Nil
  show ?case by simp
next
  case (snoc w ws)
  then have "isspace w" by simp
  from search_from_snoc [OF never_at_end_match [OF assms(1) this] space_not_word [OF this], of b "s @ ws"]
  show ?case using snoc by simp
qed

lemma strip_decomp:
  "\<exists>l t. s = l @ strip s @ t \<and> (\<forall>w \<in> set l. isspace w) \<and> (\<forall>w \<in> set t. isspace w)"
proof -
  let ?d = "dropWhile isspace s"
  have "s = takeWhile isspace s @ ?d" by simp
  moreover have "rev ?d = takeWhile isspace (rev ?d) @ dropWhile isspace (rev ?d)" by simp
  then have "?d = strip s @ rev (takeWhile isspace (rev ?d))"
    unfolding strip_def by (metis rev_append rev_rev_ident)
  ultimately have "s = takeWhile isspace s @ strip s @ rev (takeWhile isspace (rev ?d))" by metis
  moreover have "\<forall>w \<in> set (takeWhile isspace s). isspace w"
    by (auto dest: set_takeWhileD)
  moreover have "\<forall>w \<in> set (rev (takeWhile isspace (rev ?d))). isspace w"
    by (auto dest: set_takeWhileD)
  ultimately show ?thesis by blast
qed

lemma search_from_strip:
  assumes "starts_lit r" "ends_lit r"
  shows "search_from r False (strip s) = search_from r False s"
proof -
  from strip_decomp obtain l t where
    s: "s = l @ strip s @ t" and l: "\<forall>w \<in> set l. isspace w" and t: "\<forall>w \<in> set t. isspace w"
    by blast
  have "search_from r False (l @ strip s @ t) = search_from r False (strip s @ t)"
    using never_at_space_match [OF assms(1)] l by (rule search_from_leading)
  also have "\<dots> = search_from r False (strip s)"
    using assms(2) t by (rule search_from_trailing)
  finally show ?thesis using s by simp
qed

section \<open>The policy loops\<close>

lemma all_patterns_compile: "\<forall>p \<in> set all_patterns. re_compile p \<noteq> None"
  unfolding all_patterns_def POLICY_RULES_def by code_simp

lemma re_search_fires:
  assumes "re_compile p \<noteq> None"
  shows "re_search p c = Some (fires p c)"
  using assms by (auto simp: fires_def re_search_def)

lemma first_pattern_find:
  assumes "\<forall>p \<in> set ps. re_compile p \<noteq> None"
  shows "first_pattern ps c = Inr (find (\<lambda>p. fires p c) ps)"
  using assms
proof (induction ps)
  case Nil
  then show ?case by simp
next
  case (Cons p ps)
  then have "re_search p c = Some (fires p c)"
    by (simp add: re_search_fires)
  with Cons show ?case by simp
qed

lemma first_policy_find:
  assumes "\<forall>r \<in> set rules. \<forall>p \<in> set (patterns (snd r)). re_compile p \<noteq> None"
  shows "first_policy rules c =
     Inr (case find (policy_fires c) rules of
            None \<Rightarrow> None
          | Some r \<Rightarrow> Some (fst r, snd r, the (find (\<lambda>p. fires p c) (patterns (snd r)))))"
  using assms
proof (induction rules)
  case Nil
  then show ?case by simp
next
  case (Cons r rules)
  obtain n pol where r: "r = (n, pol)" by (cases r)
  from Cons.prems have fp: "first_pattern (patterns pol) c = Inr (find (\<lambda>p. fires p c) (patterns pol))"
    by (simp add: first_pattern_find r)
  show ?case
  proof (cases "find (\<lambda>p. fires p c) (patterns pol)")
    case None
    then have "\<not> policy_fires c r"
      by (simp add: policy_fires_def r find_None_iff)
    with None fp Cons show ?thesis by (simp add: r)
  next
    case (Some p)
    then have "policy_fires c r"
      by (auto simp: policy_fires_def r find_Some_iff)
    with Some fp show ?thesis by (simp add: r)
  qed
qed

lemma rules_compile:
  "\<forall>r \<in> set POLICY_RULES. \<forall>p \<in> set (patterns (snd r)). re_compile p \<noteq> None"
  using all_patterns_compile by (auto simp: all_patterns_def)

lemmas first_policy_table = first_policy_find [OF rules_compile]

lemma violates_iff: "violates c \<longleftrightarrow> (\<exists>r \<in> set POLICY_RULES. policy_fires c r)"
  unfolding violates_def policy_fires_def policy_patterns_def pattern_at_def 
  by (metis in_set_conv_nth)

lemma policy_names:
  "map fst POLICY_RULES =
     [''destructive_commands'', ''network_exfiltration'', ''system_modification'', ''sensitive_paths'']"
  by (simp add: POLICY_RULES_def)

section \<open>Whitespace around the command does not change what fires\<close>

lemma all_patterns_anchored: "\<forall>p \<in> set all_patterns. anchored p"
  unfolding all_patterns_def POLICY_RULES_def by code_simp

lemma fires_strip:
  assumes "anchored p"
  shows "fires p (strip c) = fires p c"
proof -
  from assms obtain r where "re_compile p = Some r" "starts_lit r" "ends_lit r"
    by (auto simp: anchored_def split: option.splits)
  then show ?thesis
    by (simp add: fires_def re_search_def search_from_strip)
qed

lemma policy_pattern_in_table:
  assumes "r \<in> set POLICY_RULES" "p \<in> set (patterns (snd r))"
  shows "p \<in> set all_patterns"
  using assms by (auto simp: all_patterns_def)

lemma table_fires_strip:
  assumes "r \<in> set POLICY_RULES" "p \<in> set (patterns (snd r))"
  shows "fires p (strip c) = fires p c"
  using all_patterns_anchored policy_pattern_in_table [OF assms] fires_strip by blast

lemma policy_fires_strip:
  assumes "r \<in> set POLICY_RULES"
  shows "policy_fires (strip c) r = policy_fires c r"
  using table_fires_strip [OF assms] by (simp add: policy_fires_def)

lemma find_policy_strip:
  "find (policy_fires (strip c)) POLICY_RULES = find (policy_fires c) POLICY_RULES"
  by (rule find_cong) (simp_all add: policy_fires_strip)

lemma find_pattern_strip:
  assumes "r \<in> set POLICY_RULES"
  shows "find (\<lambda>p. fires p (strip c)) (patterns (snd r)) = find (\<lambda>p. fires p c) (patterns (snd r))"
  by (rule find_cong) (simp_all add: table_fires_strip [OF assms])

lemma strip_prefix:
  "dropWhile isspace s = strip s @ rev (takeWhile isspace (rev (dropWhile isspace s)))"
proof -
  let ?d = "dropWhile isspace s"
  have "rev (dropWhile isspace (rev ?d)) @ rev (takeWhile isspace (rev ?d))
      = rev (takeWhile isspace (rev ?d) @ dropWhile isspace (rev ?d))"
    by (simp only: rev_append)
  also have "\<dots> = ?d"
    by (simp only: takeWhile_dropWhile_id rev_rev_ident)
  finally show ?thesis unfolding strip_def by (rule sym)
qed

lemma strip_no_leading: "dropWhile isspace (strip s) = strip s"
proof (cases "strip s")
  case Nil
  then show ?thesis by simp
next
  case (Cons x xs)
  let ?t = "rev (takeWhile isspace (rev (dropWhile isspace s)))"
  from strip_prefix [of s] Cons have d: "dropWhile isspace s = x # (xs @ ?t)" by simp
  then have "dropWhile isspace s \<noteq> []" by (metis list.distinct(1))
  then have "\<not> isspace (hd (dropWhile isspace s))" by (rule hd_dropWhile)
  moreover from d have "hd (dropWhile isspace s) = x" by (metis list.sel(1))
  ultimately have "\<not> isspace x" by simp
  with Cons show ?thesis by simp
qed

lemma strip_idem: "strip (strip s) = strip s"
proof -
  have h: "dropWhile isspace (rev (strip s)) = rev (strip s)"
    by (simp add: strip_def)
  have "strip (strip s) = rev (dropWhile isspace (rev (dropWhile isspace (strip s))))"
    by (subst strip_def) (rule refl)
  also have "\<dots> = rev (dropWhile isspace (rev (strip s)))"
    by (simp only: strip_no_leading)
  also have "\<dots> = strip s"
    by (simp only: h rev_rev_ident)
  finally show ?thesis .
qed

lemma dropWhile_fixed_hd:
  assumes "dropWhile P xs = xs" "xs \<noteq> []"
  shows "\<not> P (hd xs)"
proof -
  from assms have "dropWhile P xs \<noteq> []" by simp
  then have "\<not> P (hd (dropWhile P xs))" by (rule hd_dropWhile)
  with assms(1) show ?thesis by simp
qed

lemma strip_no_trailing: "dropWhile isspace (rev (strip s)) = rev (strip s)"
  by (simp add: strip_def)

lemma strip_ends:
  "strip s = [] \<or> (\<not> isspace (hd (strip s)) \<and> \<not> isspace (last (strip s)))"
proof (cases "strip s = []")
  case True
  then show ?thesis by simp
next
  case False
  from dropWhile_fixed_hd [OF strip_no_leading False]
  have "\<not> isspace (hd (strip s))" .
  moreover from False have "rev (strip s) \<noteq> []" by simp
  from dropWhile_fixed_hd [OF strip_no_trailing this] False
  have "\<not> isspace (last (strip s))" by (simp add: hd_rev)
  ultimately show ?thesis by simp
qed

lemma strip_around:
  "\<exists>l t. s = l @ strip s @ t \<and> list_all isspace l \<and> list_all isspace t"
  using strip_decomp [of s] by (simp add: list_all_iff)

section \<open>What \<open>validate_command\<close> computes\<close>

lemma validate_command_find:
  "validate_command c v =
     (case find (policy_fires c) POLICY_RULES of
        None \<Rightarrow>
          (Inr allowed_result, v\<lparr>audit_log := audit_log v @ [allowed_entry (strip c)]\<rparr>)
      | Some r \<Rightarrow>
          (Inr (blocked_result (message (snd r)) (fst r) (the (find (\<lambda>p. fires p c) (patterns (snd r))))),
           v\<lparr>violation_count := violation_count v + 1,
             audit_log := audit_log v @ [blocked_entry (strip c) (fst r)]\<rparr>))"
proof (cases "find (policy_fires c) POLICY_RULES")
  case None
  then show ?thesis
    by (simp add: validate_command_def Let_def first_policy_table find_policy_strip
        allowed_result_def allowed_entry_def)
next
  case (Some r)
  then have "r \<in> set POLICY_RULES" by (auto simp: find_Some_iff)
  with Some show ?thesis
    by (simp add: validate_command_def Let_def first_policy_table find_policy_strip
        find_pattern_strip blocked_result_def blocked_entry_def)
qed

lemma find_policy_None: "find (policy_fires c) POLICY_RULES = None \<longleftrightarrow> \<not> violates c"
  by (auto simp: find_None_iff violates_iff)

lemma violates_code: "violates c \<longleftrightarrow> list_ex (\<lambda>p. fires p c) all_patterns"
  unfolding violates_iff policy_fires_def all_patterns_def list_ex_iff by auto

lemma validate_command_cases:
  obtains (allowed) "\<not> violates c"
      "validate_command c v =
         (Inr allowed_result, v\<lparr>audit_log := audit_log v @ [allowed_entry (strip c)]\<rparr>)"
  | (blocked) r where "violates c" "r \<in> set POLICY_RULES"
      "validate_command c v =
         (Inr (blocked_result (message (snd r)) (fst r)
                 (the (find (\<lambda>p. fires p c) (patterns (snd r))))),
          v\<lparr>violation_count := violation_count v + 1,
            audit_log := audit_log v @ [blocked_entry (strip c) (fst r)]\<rparr>)"
proof (cases "find (policy_fires c) POLICY_RULES")
  case None
  then have "\<not> violates c" using find_policy_None [of c] by simp
  moreover from None have "validate_command c v =
      (Inr allowed_result, v\<lparr>audit_log := audit_log v @ [allowed_entry (strip c)]\<rparr>)"
    by (simp add: validate_command_find)
  ultimately show ?thesis by (rule allowed)
next
  case (Some r)
  then have "violates c" using find_policy_None [of c] by simp
  moreover from Some have "r \<in> set POLICY_RULES" by (auto simp: find_Some_iff)
  moreover from Some have "validate_command c v =
      (Inr (blocked_result (message (snd r)) (fst r)
              (the (find (\<lambda>p. fires p c) (patterns (snd r))))),
       v\<lparr>violation_count := violation_count v + 1,
         audit_log := audit_log v @ [blocked_entry (strip c) (fst r)]\<rparr>)"
    by (simp add: validate_command_find)
  ultimately show ?thesis by (rule blocked)
qed

lemma validate_command_none:
  assumes "\<not> violates c"
  shows "validate_command c v =
     (Inr allowed_result, v\<lparr>audit_log := audit_log v @ [allowed_entry (strip c)]\<rparr>)"
proof -
  from assms have "find (policy_fires c) POLICY_RULES = None"
    by (simp add: find_policy_None)
  then show ?thesis by (simp add: validate_command_find)
qed

lemma validate_command_at:
  assumes i: "i < length POLICY_RULES" and j: "j < length (policy_patterns i)"
    and f: "fires (pattern_at i j) c"
    and js: "\<forall>j' < j. \<not> fires (pattern_at i j') c"
    and is': "\<forall>i' < i. \<forall>j' < length (policy_patterns i'). \<not> fires (pattern_at i' j') c"
  shows "validate_command c v =
     (Inr (blocked_result (message (snd (POLICY_RULES ! i))) (fst (POLICY_RULES ! i)) (pattern_at i j)),
      v\<lparr>violation_count := violation_count v + 1,
        audit_log := audit_log v @ [blocked_entry (strip c) (fst (POLICY_RULES ! i))]\<rparr>)"
proof -
  have "policy_fires c (POLICY_RULES ! i)"
    using j f unfolding policy_fires_def policy_patterns_def pattern_at_def by auto
  moreover have "\<forall>i' < i. \<not> policy_fires c (POLICY_RULES ! i')"
    using is' unfolding policy_fires_def policy_patterns_def pattern_at_def
    by (metis in_set_conv_nth)
  ultimately have r: "find (policy_fires c) POLICY_RULES = Some (POLICY_RULES ! i)"
    using i unfolding find_Some_iff by blast
  have "find (\<lambda>p. fires p c) (policy_patterns i) = Some (pattern_at i j)"
    using j f js unfolding find_Some_iff pattern_at_def by blast
  with r show ?thesis
    by (simp add: validate_command_find policy_patterns_def)
qed

lemma first_fire:
  assumes "violates c"
  shows "\<exists>i j. i < length POLICY_RULES \<and> j < length (policy_patterns i) \<and>
           fires (pattern_at i j) c \<and>
           (\<forall>j' < j. \<not> fires (pattern_at i j') c) \<and>
           (\<forall>i' < i. \<forall>j' < length (policy_patterns i'). \<not> fires (pattern_at i' j') c)"
proof -
  from assms obtain r where r: "find (policy_fires c) POLICY_RULES = Some r"
    using find_policy_None [of c] by auto
  then obtain i where i: "i < length POLICY_RULES" "policy_fires c (POLICY_RULES ! i)"
    "\<forall>i' < i. \<not> policy_fires c (POLICY_RULES ! i')"
    unfolding find_Some_iff by blast
  from i(2) obtain p where "find (\<lambda>p. fires p c) (policy_patterns i) = Some p"
    unfolding policy_fires_def policy_patterns_def
    by (cases "find (\<lambda>p. fires p c) (patterns (snd (POLICY_RULES ! i)))") (auto simp: find_None_iff)
  then obtain j where j: "j < length (policy_patterns i)" "fires (pattern_at i j) c"
    "\<forall>j' < j. \<not> fires (pattern_at i j') c"
    unfolding find_Some_iff pattern_at_def by blast
  have "\<forall>i' < i. \<forall>j' < length (policy_patterns i'). \<not> fires (pattern_at i' j') c"
    using i(3) unfolding policy_fires_def policy_patterns_def pattern_at_def by auto
  with i(1) j show ?thesis by blast
qed

lemma blocked_result_fields:
  "dict_get (blocked_result m n p) ''allowed'' d = PBool False"
  "dict_get (blocked_result m n p) ''reason'' d = PStr m"
  "dict_get (blocked_result m n p) ''policy'' d = PStr n"
  "dict_item (blocked_result m n p) ''allowed'' = Inr (PBool False)"
  "dict_item (blocked_result m n p) ''reason'' = Inr (PStr m)"
  "dict_item (blocked_result m n p) ''policy'' = Inr (PStr n)"
  by (simp_all add: dict_get_def dict_item_def blocked_result_def)

lemma allowed_result_fields:
  "dict_get allowed_result ''allowed'' d = PBool True"
  "dict_get allowed_result ''policy'' d = PNone"
  "dict_item allowed_result ''allowed'' = Inr (PBool True)"
  "dict_item allowed_result ''reason'' = Inr (dict_get allowed_result ''reason'' PNone)"
  "dict_item allowed_result ''policy'' = Inr PNone"
  by (simp_all add: dict_get_def dict_item_def allowed_result_def)

lemma validate_command_result:
  "\<exists>result v'. validate_command c v = (Inr result, v') \<and>
     dict_get result ''allowed'' PNone = PBool (\<not> violates c) \<and>
     dict_item result ''allowed'' = Inr (PBool (\<not> violates c)) \<and>
     dict_item result ''reason'' = Inr (dict_get result ''reason'' PNone) \<and>
     dict_item result ''policy'' = Inr (dict_get result ''policy'' PNone) \<and>
     (violates c \<longrightarrow>
        (\<exists>r \<in> set POLICY_RULES.
           dict_get result ''reason'' PNone = PStr (message (snd r)) \<and>
           dict_get result ''policy'' PNone = PStr (fst r)))"
proof (cases c v rule: validate_command_cases)
  case allowed
  then show ?thesis
    by (simp add: allowed_result_fields)
next
  case (blocked r)
  then show ?thesis
    by (auto simp: blocked_result_fields intro!: bexI [of _ r])
qed

lemma has_status_entries [simp]:
  "has_status ''BLOCKED'' (blocked_entry c n)"
  "\<not> has_status ''BLOCKED'' (allowed_entry c)"
  "has_status ''ALLOWED'' (allowed_entry c)"
  "\<not> has_status ''ALLOWED'' (blocked_entry c n)"
  by (simp_all add: has_status_def blocked_entry_def allowed_entry_def)

lemma validate_command_log:
  "\<exists>entry. audit_log (snd (validate_command c v)) = audit_log v @ [entry] \<and>
     dict_get entry ''command'' PNone = PStr (strip c) \<and>
     (has_status ''ALLOWED'' entry \<or> has_status ''BLOCKED'' entry)"
  by (cases c v rule: validate_command_cases)
     (simp_all add: dict_get_def blocked_entry_def allowed_entry_def has_status_def)

lemma validate_command_length:
  "length (audit_log (snd (validate_command c v))) = Suc (length (audit_log v))"
  using validate_command_log [of c v] by auto

lemma run_validates_length:
  "length (audit_log (fold run_op (map Validate cs) v)) = length (audit_log v) + length cs"
  by (induction cs arbitrary: v) (simp_all add: validate_command_length)

section \<open>The invariant\<close>

lemma get_stats_state [simp]: "snd (get_stats v) = v"
  by (simp add: get_stats_def)

lemma total_commands [simp]:
  "dict_get (fst (get_stats v)) ''total_commands'' d = PInt (int (length (audit_log v)))"
  by (simp add: get_stats_def dict_get_def)

lemma invariant_iff:
  "invariant v \<longleftrightarrow> violation_count v = int (count_status ''BLOCKED'' (audit_log v))"
  by (simp add: invariant_def)

lemma invariant_init: "invariant init"
  by (simp add: invariant_iff init_def count_status_def)

lemma invariant_validate:
  assumes "invariant v"
  shows "invariant (snd (validate_command c v))"
  using assms by (cases c v rule: validate_command_cases) (simp_all add: invariant_iff count_status_def)

lemma invariant_run_op:
  assumes "invariant v"
  shows "invariant (run_op op v)"
  using assms by (cases op) (simp_all add: invariant_validate)

lemma invariant_fold:
  assumes "invariant v"
  shows "invariant (fold run_op ops v)"
  using assms by (induction ops arbitrary: v) (simp_all add: invariant_run_op)

section \<open>Concrete commands\<close>

lemma length_first_policy: "0 < length POLICY_RULES" "0 < length (policy_patterns 0)"
  by (simp_all add: POLICY_RULES_def policy_patterns_def)

lemma sudo_rm_fires: "fires (pattern_at 0 0) ''sudo rm -rf /tmp/x''"
  unfolding fires_def pattern_at_def policy_patterns_def POLICY_RULES_def by code_simp

lemma sudo_rm_strip: "strip ''sudo rm -rf /tmp/x'' = ''sudo rm -rf /tmp/x''"
  by code_simp

lemma ls_allowed: "\<not> violates ''ls -la''"
  unfolding violates_code all_patterns_def POLICY_RULES_def fires_def by code_simp

lemma ls_strip: "strip ''ls -la'' = ''ls -la''"
  by code_simp

lemma reboot_allowed: "\<not> violates ''reboot now''"
  unfolding violates_code all_patterns_def POLICY_RULES_def fires_def by code_simp

lemma reboot_base: "base_command_of (first_word_of (strip ''reboot now'')) = ''reboot''"
  by code_simp

lemma cat_passwd_blocked: "violates ''/bin/cat /etc/passwd''"
  unfolding violates_code all_patterns_def POLICY_RULES_def fires_def by code_simp

lemma cat_passwd_base: "base_command_of (first_word_of (strip ''/bin/cat /etc/passwd'')) = ''cat''"
  by code_simp

lemma pwd_allowed: "\<not> violates ''pwd''"
  unfolding violates_code all_patterns_def POLICY_RULES_def fires_def by code_simp

lemma rm_rf_fires: "fires (pattern_at 0 0) ''rm -rf /''"
  unfolding fires_def pattern_at_def policy_patterns_def POLICY_RULES_def by code_simp

lemma git_status_allowed: "\<not> violates ''git status''"
  unfolding violates_code all_patterns_def POLICY_RULES_def fires_def by code_simp

lemma empty_allowed: "\<not> violates []"
  unfolding violates_code all_patterns_def POLICY_RULES_def fires_def by code_simp

lemma strip_examples:
  "strip ''rm -rf /'' = ''rm -rf /''" "strip ''git status'' = ''git status''" "strip [] = []"
  by code_simp+

lemma padded_strip: "strip (CHR 0x09 # '' ls -la '' @ [CHR 0x0A]) = ''ls -la''"
  by code_simp

section \<open>The claims\<close>

text \<open>
  \<^bold>\<open>C1.\<close>  When some pattern of some policy fires on a command, \<open>validate_command\<close>
  blocks it.  The policies are tried in the order of the table
  (\<open>destructive_commands\<close>, \<open>network_exfiltration\<close>, \<open>system_modification\<close>,
  \<open>sensitive_paths\<close>) and the patterns of a policy in the order of its list: there
  is a first policy \<open>i\<close> with a pattern that fires and, in it, a first pattern \<open>j\<close>
  that fires.  The result has \<open>allowed\<close> false, the message of policy \<open>i\<close> as
  \<open>reason\<close>, its name as \<open>policy\<close> and pattern \<open>j\<close>, as written in the table, as
  \<open>pattern_matched\<close>; the counter grows by one and one \<open>BLOCKED\<close> entry tagged with
  the name of policy \<open>i\<close> is appended to the log.
\<close>

theorem validate_command_blocked:
  assumes "violates c"
  shows "map fst POLICY_RULES =
           [''destructive_commands'', ''network_exfiltration'',
            ''system_modification'', ''sensitive_paths''] \<and>
         (\<exists>i j. i < length POLICY_RULES \<and> j < length (policy_patterns i) \<and>
           fires (pattern_at i j) c \<and>
           (\<forall>j' < j. \<not> fires (pattern_at i j') c) \<and>
           (\<forall>i' < i. \<forall>j' < length (policy_patterns i'). \<not> fires (pattern_at i' j') c) \<and>
           validate_command c v =
             (Inr [(''allowed'', PBool False),
                   (''reason'', PStr (message (snd (POLICY_RULES ! i)))),
                   (''policy'', PStr (fst (POLICY_RULES ! i))),
                   (''pattern_matched'', PStr (pattern_at i j))],
              v\<lparr>violation_count := violation_count v + 1,
                audit_log := audit_log v @ [blocked_entry (strip c) (fst (POLICY_RULES ! i))]\<rparr>) \<and>
           has_status ''BLOCKED'' (blocked_entry (strip c) (fst (POLICY_RULES ! i))))"
proof -
  from first_fire [OF assms] obtain i j where
    ij: "i < length POLICY_RULES" "j < length (policy_patterns i)" "fires (pattern_at i j) c"
      "\<forall>j' < j. \<not> fires (pattern_at i j') c"
      "\<forall>i' < i. \<forall>j' < length (policy_patterns i'). \<not> fires (pattern_at i' j') c"
    by blast
  from validate_command_at [OF ij, of v] ij show ?thesis
    unfolding blocked_result_def by (intro conjI exI [of _ i] exI [of _ j] policy_names) simp_all
qed

theorem validate_command_blocked_witness:
  "violates ''sudo rm -rf /tmp/x'' \<and>
   validate_command ''sudo rm -rf /tmp/x'' init =
     (Inr [(''allowed'', PBool False),
           (''reason'', PStr ''Destructive command blocked by ORG-SEC-001''),
           (''policy'', PStr ''destructive_commands''),
           (''pattern_matched'', PStr (bs # ''brm'' @ bs # ''s+-rf'' @ bs # ''s+/''))],
      \<lparr>violation_count = 1,
       audit_log = [blocked_entry ''sudo rm -rf /tmp/x'' ''destructive_commands'']\<rparr>)"
proof -
  let ?c = "''sudo rm -rf /tmp/x''"
  have v: "violates ?c"
    unfolding violates_def using length_first_policy sudo_rm_fires by blast
  from validate_command_blocked [OF v, of init] obtain i j where
    ij: "\<forall>j' < j. \<not> fires (pattern_at i j') ?c"
      "\<forall>i' < i. \<forall>j' < length (policy_patterns i'). \<not> fires (pattern_at i' j') ?c"
    and r: "validate_command ?c init =
             (Inr [(''allowed'', PBool False),
                   (''reason'', PStr (message (snd (POLICY_RULES ! i)))),
                   (''policy'', PStr (fst (POLICY_RULES ! i))),
                   (''pattern_matched'', PStr (pattern_at i j))],
              init\<lparr>violation_count := violation_count init + 1,
                audit_log := audit_log init @ [blocked_entry (strip ?c) (fst (POLICY_RULES ! i))]\<rparr>)"
    by blast
  have "i = 0"
    using ij(2) length_first_policy(2) sudo_rm_fires by (cases i) auto
  moreover with ij(1) sudo_rm_fires have "j = 0" by (cases j) auto
  ultimately show ?thesis
    using v r by (simp add: sudo_rm_strip init_def POLICY_RULES_def pattern_at_def policy_patterns_def)
qed

text \<open>
  \<^bold>\<open>C2.\<close>  When no pattern of any policy fires on a command, \<open>validate_command\<close>
  answers \<open>allowed\<close> true with the generic message and \<open>None\<close> as policy, leaves
  the counter alone and appends one \<open>ALLOWED\<close> entry, so that the log is longer by
  exactly one.
\<close>

theorem validate_command_allowed:
  assumes "\<not> violates c"
  shows "validate_command c v =
           (Inr [(''allowed'', PBool True),
                 (''reason'', PStr ''Command passed all policy checks''),
                 (''policy'', PNone)],
            v\<lparr>audit_log := audit_log v @ [allowed_entry (strip c)]\<rparr>)
         \<and> has_status ''ALLOWED'' (allowed_entry (strip c))
         \<and> length (audit_log (snd (validate_command c v))) = length (audit_log v) + 1"
proof -
  from assms have "find (policy_fires c) POLICY_RULES = None"
    by (simp add: find_policy_None)
  then show ?thesis
    by (simp add: validate_command_find allowed_result_def has_status_def allowed_entry_def)
qed

theorem validate_command_allowed_witness:
  "\<not> violates ''ls -la'' \<and>
   validate_command ''ls -la'' init =
     (Inr [(''allowed'', PBool True),
           (''reason'', PStr ''Command passed all policy checks''),
           (''policy'', PNone)],
      \<lparr>violation_count = 0, audit_log = [allowed_entry ''ls -la'']\<rparr>)"
  using validate_command_allowed [OF ls_allowed, of init] ls_allowed
  by (simp add: ls_strip init_def)

text \<open>
  \<^bold>\<open>C3.\<close>  After any sequence of \<open>validate_command\<close> and \<open>get_stats\<close> calls on a
  fresh validator, the counter is the number of \<open>BLOCKED\<close> entries of the log and
  the total that \<open>get_stats\<close> reports is the length of the log; each single
  operation preserves this.
\<close>

theorem invariant_always:
  "invariant (run_ops ops init) \<and> (invariant v \<longrightarrow> invariant (run_op op v))"
  by (simp add: run_ops_def invariant_fold invariant_init invariant_run_op)

theorem invariant_always_witness:
  "invariant init \<and> invariant (run_op (Validate ''kill -9 1'') init)"
proof -
  from invariant_always [of "[]" init "Validate ''kill -9 1''"]
  have "invariant (run_ops [] init)" and step: "invariant init \<longrightarrow> invariant (run_op (Validate ''kill -9 1'') init)"
    by blast+
  then have "invariant init" by (simp add: run_ops_def)
  with step show ?thesis by blast
qed

text \<open>
  \<^bold>\<open>C4.\<close>  Every \<open>validate_command\<close> appends exactly one entry to the log and
  leaves the earlier entries as they were.  Hence \<open>N\<close> calls from any state make
  the log longer by \<open>N\<close>, and after \<open>N\<close> calls on a fresh validator \<open>get_stats\<close>
  reports \<open>total_commands = N\<close>.
\<close>

theorem validate_command_appends_one:
  "(\<exists>entry. audit_log (snd (validate_command c v)) = audit_log v @ [entry]) \<and>
   length (audit_log (run_ops (map Validate cs) v)) = length (audit_log v) + length cs \<and>
   dict_get (fst (get_stats (run_ops (map Validate cs) init))) ''total_commands'' PNone
     = PInt (int (length cs))"
proof -
  from validate_command_log [of c v]
  have "\<exists>entry. audit_log (snd (validate_command c v)) = audit_log v @ [entry]" by blast
  then show ?thesis
    by (simp add: run_ops_def run_validates_length init_def)
qed

text \<open>
  \<^bold>\<open>C5.\<close>  \<open>get_stats\<close> reports the length of the log as \<open>total_commands\<close>, the
  counter as \<open>blocked\<close>, their difference as \<open>allowed\<close>, and as \<open>recent_log\<close> the
  last entries of the log in log order, ten of them or all when there are fewer;
  the validator is returned unchanged.
\<close>

theorem get_stats_result:
  "\<exists>stats recent older.
     get_stats v = (stats, v) \<and>
     dict_get stats ''total_commands'' PNone = PInt (int (length (audit_log v))) \<and>
     dict_get stats ''blocked'' PNone = PInt (violation_count v) \<and>
     dict_get stats ''allowed'' PNone = PInt (int (length (audit_log v)) - violation_count v) \<and>
     dict_get stats ''recent_log'' PNone = PList (map PDict recent) \<and>
     audit_log v = older @ recent \<and>
     length recent = min 10 (length (audit_log v))"
  by (rule exI [of _ "fst (get_stats v)"], rule exI [of _ "last_n 10 (audit_log v)"],
      rule exI [of _ "take (length (audit_log v) - 10) (audit_log v)"])
     (simp add: get_stats_def dict_get_def last_n_def)

text \<open>
  \<^bold>\<open>C6.\<close>  \<open>ALLOWED_COMMANDS\<close> plays no part in the verdict: \<open>allowed\<close> is true
  exactly when no pattern of the table fires.  In particular a command that fires
  nothing is allowed also when its base command is not in the allowlist, and a
  command that fires a pattern is blocked also when its base command is in it.
\<close>

theorem allowlist_not_consulted:
  "\<exists>result. fst (validate_command c v) = Inr result \<and>
     dict_get result ''allowed'' PNone = PBool (\<not> violates c) \<and>
     (\<not> violates c \<and> base_command_of (first_word_of (strip c)) \<notin> ALLOWED_COMMANDS
        \<longrightarrow> dict_get result ''allowed'' PNone = PBool True) \<and>
     (violates c \<and> base_command_of (first_word_of (strip c)) \<in> ALLOWED_COMMANDS
        \<longrightarrow> dict_get result ''allowed'' PNone = PBool False)"
proof -
  from validate_command_result [of c v] obtain result v' where
    "validate_command c v = (Inr result, v')"
    "dict_get result ''allowed'' PNone = PBool (\<not> violates c)" by blast
  then show ?thesis by auto
qed

theorem allowlist_not_consulted_witness:
  "\<not> violates ''reboot now'' \<and>
   base_command_of (first_word_of (strip ''reboot now'')) \<notin> ALLOWED_COMMANDS \<and>
   (\<exists>result. fst (validate_command ''reboot now'' init) = Inr result \<and>
      dict_get result ''allowed'' PNone = PBool True) \<and>
   violates ''/bin/cat /etc/passwd'' \<and>
   base_command_of (first_word_of (strip ''/bin/cat /etc/passwd'')) \<in> ALLOWED_COMMANDS \<and>
   (\<exists>result. fst (validate_command ''/bin/cat /etc/passwd'' init) = Inr result \<and>
      dict_get result ''allowed'' PNone = PBool False)"
proof -
  have a: "base_command_of (first_word_of (strip ''reboot now'')) \<notin> ALLOWED_COMMANDS"
    unfolding reboot_base by (simp add: ALLOWED_COMMANDS_def)
  have b: "base_command_of (first_word_of (strip ''/bin/cat /etc/passwd'')) \<in> ALLOWED_COMMANDS"
    unfolding cat_passwd_base by (simp add: ALLOWED_COMMANDS_def)
  from allowlist_not_consulted [of "''reboot now''" init] reboot_allowed a
  have "\<exists>result. fst (validate_command ''reboot now'' init) = Inr result \<and>
      dict_get result ''allowed'' PNone = PBool True" by blast
  moreover from allowlist_not_consulted [of "''/bin/cat /etc/passwd''" init] cat_passwd_blocked b
  have "\<exists>result. fst (validate_command ''/bin/cat /etc/passwd'' init) = Inr result \<and>
      dict_get result ''allowed'' PNone = PBool False" by blast
  ultimately show ?thesis using reboot_allowed cat_passwd_blocked a b by blast
qed

text \<open>
  \<^bold>\<open>C7.\<close>  \<open>execute_validated_command\<close> does what \<open>validate_command\<close> does to the
  validator and nothing more.  When the command is blocked the answer has status
  \<open>blocked\<close>, the command as given, and the message and the name of a policy of
  the table; otherwise it has status \<open>success\<close> and a text saying that the command
  would be executed.  The status is \<open>blocked\<close> exactly when \<open>allowed\<close> is false.
\<close>

theorem execute_validated_command_simulated:
  assumes "dict_get arguments ''command'' (PStr []) = PStr c"
  shows "\<exists>validation.
     validate_command c v = (Inr validation, snd (validate_command c v)) \<and>
     dict_get validation ''allowed'' PNone = PBool (\<not> violates c) \<and>
     (violates c \<longrightarrow>
        (\<exists>r \<in> set POLICY_RULES.
           dict_get validation ''reason'' PNone = PStr (message (snd r)) \<and>
           dict_get validation ''policy'' PNone = PStr (fst r))) \<and>
     call_tool ''execute_validated_command'' arguments v =
       (Inr [TextContent ''text'' (PDict
          (if dict_get validation ''allowed'' PNone = PBool False
           then [(''status'', PStr ''blocked''),
                 (''command'', PStr c),
                 (''reason'', dict_get validation ''reason'' PNone),
                 (''policy'', dict_get validation ''policy'' PNone)]
           else [(''status'', PStr ''success''),
                 (''command'', PStr c),
                 (''validation'', PStr ''passed''),
                 (''output'', PStr (''[SIMULATED] Command '' @ [CHR 0x27] @ c @ [CHR 0x27] @
                                    '' would be executed here''))]))],
        snd (validate_command c v))"
proof -
  from validate_command_result [of c v] obtain validation v' where
    v: "validate_command c v = (Inr validation, v')"
    and a: "dict_get validation ''allowed'' PNone = PBool (\<not> violates c)"
      "dict_item validation ''allowed'' = Inr (PBool (\<not> violates c))"
    and r: "dict_item validation ''reason'' = Inr (dict_get validation ''reason'' PNone)"
    and p: "dict_item validation ''policy'' = Inr (dict_get validation ''policy'' PNone)"
    and m: "violates c \<longrightarrow>
        (\<exists>r \<in> set POLICY_RULES.
           dict_get validation ''reason'' PNone = PStr (message (snd r)) \<and>
           dict_get validation ''policy'' PNone = PStr (fst r))"
    by blast
  have "validate_argument arguments v = (Inr (PStr c, validation), v')"
    by (simp add: validate_argument_def assms v)
  then have "call_tool ''execute_validated_command'' arguments v =
       (Inr [TextContent ''text'' (PDict
          (if dict_get validation ''allowed'' PNone = PBool False
           then [(''status'', PStr ''blocked''),
                 (''command'', PStr c),
                 (''reason'', dict_get validation ''reason'' PNone),
                 (''policy'', dict_get validation ''policy'' PNone)]
           else [(''status'', PStr ''success''),
                 (''command'', PStr c),
                 (''validation'', PStr ''passed''),
                 (''output'', PStr (''[SIMULATED] Command '' @ [CHR 0x27] @ c @ [CHR 0x27] @
                                    '' would be executed here''))]))],
        snd (validate_command c v))"
    using v a r p by (simp add: call_tool_def)
  with v a(1) m show ?thesis
    by (intro exI [of _ validation]) simp
qed

theorem execute_validated_command_simulated_witness:
  "dict_get [(''command'', PStr ''pwd'')] ''command'' (PStr []) = PStr ''pwd'' \<and>
   fst (call_tool ''execute_validated_command'' [(''command'', PStr ''pwd'')] init) =
     Inr [TextContent ''text''
           (PDict [(''status'', PStr ''success''),
                   (''command'', PStr ''pwd''),
                   (''validation'', PStr ''passed''),
                   (''output'', PStr (''[SIMULATED] Command '' @ [CHR 0x27] @ ''pwd'' @
                                      [CHR 0x27] @ '' would be executed here''))])]"
proof -
  have h: "dict_get [(''command'', PStr ''pwd'')] ''command'' (PStr []) = PStr ''pwd''"
    by (simp add: dict_get_def)
  from execute_validated_command_simulated [OF h, of init] pwd_allowed h
  show ?thesis by auto
qed

text \<open>
  \<^bold>\<open>C8.\<close>  The concrete scenarios: \<open>rm -rf /\<close> is blocked under
  \<open>destructive_commands\<close> by the pattern \<open>\brm\s+-rf\s+/\<close>; \<open>git status\<close> is allowed
  with policy \<open>None\<close>; the empty string is allowed, and the log grows by one.
\<close>

theorem concrete_scenarios:
  "validate_command ''rm -rf /'' v =
     (Inr [(''allowed'', PBool False),
           (''reason'', PStr ''Destructive command blocked by ORG-SEC-001''),
           (''policy'', PStr ''destructive_commands''),
           (''pattern_matched'', PStr (bs # ''brm'' @ bs # ''s+-rf'' @ bs # ''s+/''))],
      v\<lparr>violation_count := violation_count v + 1,
        audit_log := audit_log v @ [blocked_entry ''rm -rf /'' ''destructive_commands'']\<rparr>) \<and>
   validate_command ''git status'' v =
     (Inr [(''allowed'', PBool True),
           (''reason'', PStr ''Command passed all policy checks''),
           (''policy'', PNone)],
      v\<lparr>audit_log := audit_log v @ [allowed_entry ''git status'']\<rparr>) \<and>
   validate_command [] v =
     (Inr [(''allowed'', PBool True),
           (''reason'', PStr ''Command passed all policy checks''),
           (''policy'', PNone)],
      v\<lparr>audit_log := audit_log v @ [allowed_entry []]\<rparr>) \<and>
   length (audit_log (snd (validate_command [] v))) = length (audit_log v) + 1"
proof -
  have "validate_command ''rm -rf /'' v =
     (Inr (blocked_result (message (snd (POLICY_RULES ! 0))) (fst (POLICY_RULES ! 0)) (pattern_at 0 0)),
      v\<lparr>violation_count := violation_count v + 1,
        audit_log := audit_log v @ [blocked_entry (strip ''rm -rf /'') (fst (POLICY_RULES ! 0))]\<rparr>)"
    using length_first_policy rm_rf_fires by (intro validate_command_at) simp_all
  then have 1: "validate_command ''rm -rf /'' v =
     (Inr [(''allowed'', PBool False),
           (''reason'', PStr ''Destructive command blocked by ORG-SEC-001''),
           (''policy'', PStr ''destructive_commands''),
           (''pattern_matched'', PStr (bs # ''brm'' @ bs # ''s+-rf'' @ bs # ''s+/''))],
      v\<lparr>violation_count := violation_count v + 1,
        audit_log := audit_log v @ [blocked_entry ''rm -rf /'' ''destructive_commands'']\<rparr>)"
    by (simp add: strip_examples blocked_result_def POLICY_RULES_def pattern_at_def policy_patterns_def)
  have 2: "validate_command ''git status'' v =
     (Inr allowed_result, v\<lparr>audit_log := audit_log v @ [allowed_entry ''git status'']\<rparr>)"
    using validate_command_none [OF git_status_allowed, of v] by (simp add: strip_examples)
  have 3: "validate_command [] v =
     (Inr allowed_result, v\<lparr>audit_log := audit_log v @ [allowed_entry []]\<rparr>)"
    using validate_command_none [OF empty_allowed, of v] by (simp add: strip_examples)
  from 1 2 3 show ?thesis by (simp add: allowed_result_def)
qed

text \<open>
  \<^bold>\<open>C9.\<close>  A tool name other than the four that \<open>call_tool\<close> knows raises
  \<open>ValueError\<close>, with no result, and the validator stays as it was.
\<close>

theorem unknown_tool_error:
  assumes "name \<notin> {''validate_command'', ''execute_validated_command'',
                    ''get_validation_stats'', ''list_policies''}"
  shows "call_tool name arguments v = (Inl (ValueError (''Unknown tool: '' @ name)), v)"
  using assms by (simp add: call_tool_def)

theorem unknown_tool_error_witness:
  "''run_shell'' \<notin> {''validate_command'', ''execute_validated_command'',
                    ''get_validation_stats'', ''list_policies''} \<and>
   call_tool ''run_shell'' [(''command'', PStr ''ls'')] init
     = (Inl (ValueError ''Unknown tool: run_shell''), init)"
proof -
  have h: "''run_shell'' \<notin> {''validate_command'', ''execute_validated_command'',
                    ''get_validation_stats'', ''list_policies''}" by simp
  from unknown_tool_error [OF h, of "[(''command'', PStr ''ls'')]" init] h
  show ?thesis by simp
qed

text \<open>
  \<^bold>\<open>C10.\<close>  \<open>validate_command\<close> strips its argument first: on a command and on
  the stripped command it returns the same result and the same validator, and
  the entry it appends records the stripped text.  The stripped text is the
  command without the whitespace at its two ends: the command is the stripped
  text between two runs of whitespace, and the stripped text, unless empty,
  neither begins nor ends with whitespace.  So for a command with whitespace
  at an end the text recorded is not the text given.
\<close>

theorem validate_command_strips:
  "validate_command c v = validate_command (strip c) v \<and>
   (\<exists>entry. audit_log (snd (validate_command c v)) = audit_log v @ [entry] \<and>
      dict_get entry ''command'' PNone = PStr (strip c)) \<and>
   (\<exists>l t. c = l @ strip c @ t \<and> list_all isspace l \<and> list_all isspace t) \<and>
   (strip c = [] \<or> (\<not> isspace (hd (strip c)) \<and> \<not> isspace (last (strip c))))"
proof -
  have "validate_command c v = validate_command (strip c) v"
    by (simp add: validate_command_def strip_idem)
  with validate_command_log [of c v] strip_around [of c] strip_ends [of c]
  show ?thesis by blast
qed

theorem validate_command_strips_witness:
  "strip (CHR 0x09 # '' ls -la '' @ [CHR 0x0A]) = ''ls -la'' \<and>
   ''ls -la'' \<noteq> CHR 0x09 # '' ls -la '' @ [CHR 0x0A] \<and>
   validate_command (CHR 0x09 # '' ls -la '' @ [CHR 0x0A]) init = validate_command ''ls -la'' init \<and>
   (\<exists>entry. audit_log (snd (validate_command (CHR 0x09 # '' ls -la '' @ [CHR 0x0A]) init)) = [entry] \<and>
      dict_get entry ''command'' PNone = PStr ''ls -la'')"
proof -
  let ?c = "CHR 0x09 # '' ls -la '' @ [CHR 0x0A]"
  from validate_command_strips [of ?c init]
  have e: "validate_command ?c init = validate_command (strip ?c) init"
    and l: "\<exists>entry. audit_log (snd (validate_command ?c init)) = audit_log init @ [entry] \<and>
      dict_get entry ''command'' PNone = PStr (strip ?c)"
    by blast+
  from e have "validate_command ?c init = validate_command ''ls -la'' init"
    by (simp only: padded_strip)
  moreover from l have "\<exists>entry. audit_log (snd (validate_command ?c init)) = [entry] \<and>
      dict_get entry ''command'' PNone = PStr ''ls -la''"
    by (simp only: padded_strip) (simp add: init_def)
  moreover have "''ls -la'' \<noteq> ?c" by simp
  ultimately show ?thesis using padded_strip by blast
qed

end
